theory Spec2Isabelle
  imports Complex_Main
begin

section \<open>Numbers, points and track points\<close>

text \<open>
  A JavaScript number is an IEEE double.  The search only ever compares numbers with
  \<open><=\<close>, so a number is modelled by its value: not-a-number, the two infinities, or a
  finite real (the two signed zeros compare equal and are both \<open>Fin 0\<close>).  Every
  comparison with \<open>NaN\<close> is false.
\<close>

datatype number = NaN | NegInf | Fin real | PosInf

fun js_le :: "number \<Rightarrow> number \<Rightarrow> bool" where
  "js_le (Fin a) (Fin b) = (a \<le> b)"
| "js_le NaN _ = False"
| "js_le _ NaN = False"
| "js_le NegInf _ = True"
| "js_le _ PosInf = True"
| "js_le _ NegInf = False"
| "js_le PosInf _ = False"

text \<open>\<open>interface TrkPrt\<close>: the attributes \<open>@_lat\<close> and \<open>@_lon\<close> are kept as the strings
  the XML parser delivers; \<open>ele\<close> is absent when the point has no elevation element.\<close>

record TrkPrt =
  time :: string
  ele :: "number option"
  at_lat :: string
  at_lon :: string

text \<open>\<open>class LatLng\<close>.\<close>

record LatLng =
  lat :: number
  lng :: number

text \<open>
  The functions of the JavaScript runtime that the scripts call, and \<open>haversineDist\<close>,
  whose body is IEEE double arithmetic over \<open>Math.sin\<close>, \<open>Math.cos\<close>, \<open>Math.sqrt\<close> and
  \<open>Math.atan2\<close>: the development is parametric in them.
  \<^item> \<open>Number_parseFloat\<close>: \<open>Number.parseFloat\<close>;
  \<^item> \<open>haversineDist\<close>: the distance in meters as the engine computes it;
  \<^item> \<open>Date_parse\<close>: \<open>Date.parse\<close>, a time value in milliseconds, \<open>None\<close> for \<open>NaN\<close>;
  \<^item> \<open>Date_toISOString\<close>: the text \<open>toISOString\<close> gives for a valid time value.
\<close>

record runtime =
  Number_parseFloat :: "string \<Rightarrow> number"
  haversineDist :: "LatLng \<Rightarrow> LatLng \<Rightarrow> number"
  Date_parse :: "string \<Rightarrow> int option"
  Date_toISOString :: "int \<Rightarrow> string"

text \<open>The constructor of \<open>LatLng\<close> behind \<open>LatLng.fromTrkPrt\<close>.\<close>

definition fromTrkPrt :: "runtime \<Rightarrow> TrkPrt \<Rightarrow> LatLng" where
  "fromTrkPrt rt trkPrt =
     \<lparr>lat = Number_parseFloat rt (at_lat trkPrt), lng = Number_parseFloat rt (at_lon trkPrt)\<rparr>"

text \<open>\<open>LatLng.isBetween\<close>; \<open>self\<close> is the receiver.\<close>

definition isBetween :: "LatLng \<Rightarrow> LatLng \<Rightarrow> LatLng \<Rightarrow> bool" where
  "isBetween self latLng1 latLng2 =
     (if (js_le (lat latLng1) (lat self) \<and> js_le (lat self) (lat latLng2)) \<or>
         (js_le (lat latLng2) (lat self) \<and> js_le (lat self) (lat latLng1)) \<or>
         (js_le (lng latLng1) (lng self) \<and> js_le (lng self) (lng latLng2)) \<or>
         (js_le (lng latLng2) (lng self) \<and> js_le (lng self) (lng latLng1))
      then True else False)"

text \<open>
  The closed interval between two numbers, in the words of the specification:
  \<open>Math.min\<close> and \<open>Math.max\<close> (which give \<open>NaN\<close> as soon as one argument is \<open>NaN\<close>) and
  membership by two comparisons.
\<close>

definition js_min :: "number \<Rightarrow> number \<Rightarrow> number" where
  "js_min a b = (if a = NaN \<or> b = NaN then NaN else if js_le a b then a else b)"

definition js_max :: "number \<Rightarrow> number \<Rightarrow> number" where
  "js_max a b = (if a = NaN \<or> b = NaN then NaN else if js_le a b then b else a)"

definition in_closed_interval :: "number \<Rightarrow> number \<Rightarrow> number \<Rightarrow> bool" where
  "in_closed_interval x lo hi = (js_le lo x \<and> js_le x hi)"

section \<open>The confirmation prompt\<close>

text \<open>
  \<open>answer.toLowerCase()\<close>: only the letters A to Z can turn into \<open>y\<close>, so the other
  characters are left as they are.
\<close>

definition toLowerCase_char :: "char \<Rightarrow> char" where
  "toLowerCase_char c =
     (if (65::nat) \<le> of_char c \<and> of_char c \<le> (90::nat)
      then char_of (of_char c + (32::nat)) else c)"

definition toLowerCase :: "string \<Rightarrow> string" where
  "toLowerCase s = map toLowerCase_char s"

text \<open>
  \<open>String.prototype.match\<close> with the string \<open>"(y|yes)"\<close> builds the regular expression
  \<open>/(y|yes)/\<close>: an alternation of literals, tried in order at every start position of the
  subject, from the left.
\<close>

fun matchesAt :: "string list \<Rightarrow> string \<Rightarrow> bool" where
  "matchesAt [] s = False"
| "matchesAt (alt # alts) s = (take (length alt) s = alt \<or> matchesAt alts s)"

fun regex_search :: "string list \<Rightarrow> string \<Rightarrow> bool" where
  "regex_search alts [] = matchesAt alts []"
| "regex_search alts (c # cs) = (matchesAt alts (c # cs) \<or> regex_search alts cs)"

text \<open>\<open>userConfirm\<close>, as a function of the line the operator types.\<close>

definition userConfirm :: "string \<Rightarrow> bool" where
  "userConfirm answer =
     (if regex_search [''y'', ''yes''] (toLowerCase answer) then True else False)"

section \<open>Retiming and splicing\<close>

datatype error = TypeError | RangeError

text \<open>
  \<open>new Date(value).toISOString()\<close>.  A time value is a number of milliseconds since the
  epoch; \<open>new Date\<close> keeps it only when it is within 8.64e15 ms of the epoch, and
  \<open>toISOString\<close> throws a \<open>RangeError\<close> on any other date.  \<open>None\<close> is \<open>NaN\<close>.
  All the sums below stay under \<open>2^53\<close> in absolute value (a time value is at most
  8.64e15 and an array has fewer than \<open>2^32\<close> elements), so the double arithmetic of the
  source is exact and is written over \<open>int\<close>.
\<close>

definition Date_new_toISOString :: "runtime \<Rightarrow> int option \<Rightarrow> error + string" where
  "Date_new_toISOString rt value =
     (case value of
        None \<Rightarrow> Inl RangeError
      | Some v \<Rightarrow>
          if - 8640000000000000 \<le> v \<and> v \<le> 8640000000000000
          then Inr (Date_toISOString rt v) else Inl RangeError)"

text \<open>
  The \<open>_.forEach\<close> of \<open>mergeFiles\<close> (and of the single-file script): the callback
  overwrites \<open>time\<close> of the point at \<open>index\<close>; an exception leaves the loop.
\<close>

fun forEach_retime :: "runtime \<Rightarrow> int option \<Rightarrow> nat \<Rightarrow> TrkPrt list \<Rightarrow> error + TrkPrt list" where
  "forEach_retime rt startTimeMs index [] = Inr []"
| "forEach_retime rt startTimeMs index (trkPrt # rest) =
     (case Date_new_toISOString rt (map_option (\<lambda>s. s + int index * 1000) startTimeMs) of
        Inl e \<Rightarrow> Inl e
      | Inr d \<Rightarrow>
          (case forEach_retime rt startTimeMs (Suc index) rest of
             Inl e \<Rightarrow> Inl e
           | Inr rest' \<Rightarrow> Inr (trkPrt\<lparr>time := d\<rparr> # rest')))"

text \<open>
  \<open>mergeFiles\<close>.  The result is the point sequence that is serialised and written to
  \<open>outputGpx\<close>, or the exception that ends the call before anything is written.  Reading
  \<open>time\<close> of the first point of an empty end track is a \<open>TypeError\<close>.  The points of
  \<open>toMerge\<close> are objects of the begin file and those of \<open>endTrkPrts\<close> objects of the end
  file, parsed separately, so overwriting the former never touches the latter.
\<close>

definition mergeFiles :: "runtime \<Rightarrow> TrkPrt list \<Rightarrow> TrkPrt list \<Rightarrow> error + TrkPrt list" where
  "mergeFiles rt endTrkPrts toMerge =
     (case endTrkPrts of
        [] \<Rightarrow> Inl TypeError
      | firstTrkInEnd # _ \<Rightarrow>
          (let timeToReachMs = Date_parse rt (time firstTrkInEnd);
               startTimeMs = map_option (\<lambda>t. t - int (length toMerge) * 1000) timeToReachMs
           in case forEach_retime rt startTimeMs 0 toMerge of
                Inl e \<Rightarrow> Inl e
              | Inr retimed \<Rightarrow> Inr (retimed @ endTrkPrts)))"

text \<open>
  The single-file script: the same loop over all the points of one track, towards the
  fixed arrival time \<open>2021-12-18T20:14:37Z\<close>.  (It also prints the distance and speed
  between consecutive points, which changes no point.)
\<close>

definition retimeFile :: "runtime \<Rightarrow> TrkPrt list \<Rightarrow> error + TrkPrt list" where
  "retimeFile rt trkPrts =
     (let timeToReachMs = Date_parse rt ''2021-12-18T20:14:37Z'';
          count = length trkPrts;
          startTimeMs = map_option (\<lambda>t. t - int count * 1000) timeToReachMs
      in forEach_retime rt startTimeMs 0 trkPrts)"

section \<open>The search for the merge point\<close>

text \<open>
  What the operator is shown for a candidate: the point, the distance line (which prints
  \<open>minDist\<close>), and the two flags.
\<close>

record candidate =
  c_index :: nat
  c_trkPrt :: TrkPrt
  c_minDist :: number
  c_inBetween :: bool
  c_isMinDist :: bool

text \<open>
  The observable events of a run, in order: a candidate reported and the question asked;
  the output file written; the message that no merge point was found.
\<close>

datatype event = Offered candidate | WriteFile "TrkPrt list" | NoMergePointFound

text \<open>
  How a run ends: merged at an index, the begin track exhausted, still waiting for the
  answer about an index (no line ever arrives), or an exception.
\<close>

datatype outcome = Merged nat | Exhausted | Waiting nat | Thrown error

record run =
  ended :: outcome
  trace :: "event list"

definition emit :: "event \<Rightarrow> run \<Rightarrow> run" where
  "emit ev r = r\<lparr>trace := ev # trace r\<rparr>"

text \<open>
  The \<open>for\<close> loop of \<open>findMergePoint\<close> from \<open>index\<close> on, with the loop variables
  \<open>minDist\<close> and \<open>toMerge\<close>.  \<open>answers i\<close> is the line the operator types when asked
  about the point at index \<open>i\<close>.
\<close>

function scan ::
  "runtime \<Rightarrow> TrkPrt list \<Rightarrow> TrkPrt list \<Rightarrow> number \<Rightarrow> (nat \<Rightarrow> string option) \<Rightarrow> LatLng \<Rightarrow>
   nat \<Rightarrow> number \<Rightarrow> TrkPrt list \<Rightarrow> run" where
  "scan rt beginTrkPrts endTrkPrts thresholdMeters answers firstEndLatLng index minDist toMerge =
     (if index < length beginTrkPrts then
        (let trkPrt = beginTrkPrts ! index;
             toMerge' = toMerge @ [trkPrt];
             latLng = fromTrkPrt rt trkPrt;
             dist = haversineDist rt firstEndLatLng latLng
         in if js_le dist thresholdMeters then
              (let isMinDist = js_le dist minDist;
                   minDist' = (if isMinDist then dist else minDist);
                   inBetween =
                     (if index < length beginTrkPrts - 1
                      then isBetween firstEndLatLng latLng
                             (fromTrkPrt rt (beginTrkPrts ! (index + 1)))
                      else False);
                   offer = Offered \<lparr>c_index = index, c_trkPrt = trkPrt, c_minDist = minDist',
                                    c_inBetween = inBetween, c_isMinDist = isMinDist\<rparr>
               in case answers index of
                    None \<Rightarrow> \<lparr>ended = Waiting index, trace = [offer]\<rparr>
                  | Some answer \<Rightarrow>
                      if userConfirm answer then
                        (case mergeFiles rt endTrkPrts toMerge' of
                           Inl e \<Rightarrow> \<lparr>ended = Thrown e, trace = [offer]\<rparr>
                         | Inr merged \<Rightarrow>
                             \<lparr>ended = Merged index, trace = [offer, WriteFile merged]\<rparr>)
                      else emit offer
                             (scan rt beginTrkPrts endTrkPrts thresholdMeters answers
                                firstEndLatLng (index + 1) minDist' toMerge'))
            else scan rt beginTrkPrts endTrkPrts thresholdMeters answers firstEndLatLng
                   (index + 1) minDist toMerge')
      else \<lparr>ended = Exhausted, trace = [NoMergePointFound]\<rparr>)"
  by pat_completeness auto
termination
  by (relation "measure (\<lambda>(rt, beginTrkPrts, endTrkPrts, thresholdMeters, answers,
        firstEndLatLng, index, minDist, toMerge). length beginTrkPrts - index)") auto

declare scan.simps [simp del]

text \<open>
  \<open>findMergePoint\<close>.  \<open>LatLng.fromTrkPrt\<close> of the first point of an empty end track is a
  \<open>TypeError\<close>, thrown before anything is printed.
\<close>

definition findMergePoint ::
  "runtime \<Rightarrow> TrkPrt list \<Rightarrow> TrkPrt list \<Rightarrow> number \<Rightarrow> (nat \<Rightarrow> string option) \<Rightarrow> run" where
  "findMergePoint rt beginTrkPrts endTrkPrts thresholdMeters answers =
     (case endTrkPrts of
        [] \<Rightarrow> \<lparr>ended = Thrown TypeError, trace = []\<rparr>
      | firstTrkInEnd # _ \<Rightarrow>
          scan rt beginTrkPrts endTrkPrts thresholdMeters answers
            (fromTrkPrt rt firstTrkInEnd) 0 PosInf [])"

text \<open>The files written during a run, and the indices of the candidates offered.\<close>

fun writes :: "event list \<Rightarrow> TrkPrt list list" where
  "writes [] = []"
| "writes (WriteFile out # evs) = out # writes evs"
| "writes (_ # evs) = writes evs"

fun offers :: "event list \<Rightarrow> candidate list" where
  "offers [] = []"
| "offers (Offered c # evs) = c # offers evs"
| "offers (_ # evs) = offers evs"

section \<open>Notions of the specification\<close>

text \<open>The distance from the begin point at index \<open>i\<close> to the first point of the end track,
  and whether it is within the threshold.\<close>

definition dist_at :: "runtime \<Rightarrow> TrkPrt list \<Rightarrow> TrkPrt list \<Rightarrow> nat \<Rightarrow> number" where
  "dist_at rt b e i = haversineDist rt (fromTrkPrt rt (hd e)) (fromTrkPrt rt (b ! i))"

definition qualifies :: "runtime \<Rightarrow> TrkPrt list \<Rightarrow> TrkPrt list \<Rightarrow> number \<Rightarrow> nat \<Rightarrow> bool" where
  "qualifies rt b e thr i = js_le (dist_at rt b e i) thr"

text \<open>The scan goes no further than a qualifying index whose question is answered with a
  confirmation, or is never answered.\<close>

definition halts ::
  "runtime \<Rightarrow> TrkPrt list \<Rightarrow> TrkPrt list \<Rightarrow> number \<Rightarrow> (nat \<Rightarrow> string option) \<Rightarrow> nat \<Rightarrow> bool" where
  "halts rt b e thr answers i =
     (qualifies rt b e thr i \<and> (case answers i of None \<Rightarrow> True | Some a \<Rightarrow> userConfirm a))"

text \<open>The index \<open>i\<close> is reached: the scan has not halted at an earlier index.\<close>

definition reached ::
  "runtime \<Rightarrow> TrkPrt list \<Rightarrow> TrkPrt list \<Rightarrow> number \<Rightarrow> (nat \<Rightarrow> string option) \<Rightarrow> nat \<Rightarrow> bool" where
  "reached rt b e thr answers i = (\<forall>j<i. \<not> halts rt b e thr answers j)"

text \<open>The value of the loop variable \<open>minDist\<close> when the loop arrives at index \<open>i\<close>.\<close>

fun minDist_at :: "runtime \<Rightarrow> TrkPrt list \<Rightarrow> TrkPrt list \<Rightarrow> number \<Rightarrow> nat \<Rightarrow> number" where
  "minDist_at rt b e thr 0 = PosInf"
| "minDist_at rt b e thr (Suc i) =
     (if qualifies rt b e thr i \<and> js_le (dist_at rt b e i) (minDist_at rt b e thr i)
      then dist_at rt b e i else minDist_at rt b e thr i)"

text \<open>The instants of the specification's retimer: index \<open>i\<close> of \<open>N\<close> points gets
  \<open>T - (N - i)\<close> seconds, in milliseconds.\<close>

definition retimed_instants :: "int \<Rightarrow> nat \<Rightarrow> int list" where
  "retimed_instants T N = map (\<lambda>i. T - (int N - int i) * 1000) [0..<N]"

text \<open>A time value that a \<open>Date\<close> can hold.\<close>

definition valid_time :: "int \<Rightarrow> bool" where
  "valid_time v = (- 8640000000000000 \<le> v \<and> v \<le> 8640000000000000)"

text \<open>The points \<open>ts\<close> with the instants of the specification's retimer for the target
  \<open>T\<close> written into them.\<close>

definition retimed :: "runtime \<Rightarrow> int \<Rightarrow> TrkPrt list \<Rightarrow> TrkPrt list" where
  "retimed rt T ts =
     map (\<lambda>i. (ts ! i)\<lparr>time := Date_toISOString rt (T - (int (length ts) - int i) * 1000)\<rparr>)
       [0..<length ts]"

text \<open>The loop as it stands on arriving at index \<open>k\<close> with nothing halted before, and
  the candidate it reports there.\<close>

definition scan_at ::
  "runtime \<Rightarrow> TrkPrt list \<Rightarrow> TrkPrt list \<Rightarrow> number \<Rightarrow> (nat \<Rightarrow> string option) \<Rightarrow> nat \<Rightarrow> run" where
  "scan_at rt b e thr answers k =
     scan rt b e thr answers (fromTrkPrt rt (hd e)) k (minDist_at rt b e thr k) (take k b)"

definition offer_at :: "runtime \<Rightarrow> TrkPrt list \<Rightarrow> TrkPrt list \<Rightarrow> number \<Rightarrow> nat \<Rightarrow> candidate" where
  "offer_at rt b e thr k =
     \<lparr>c_index = k, c_trkPrt = b ! k, c_minDist = minDist_at rt b e thr (Suc k),
      c_inBetween =
        (if k < length b - 1
         then isBetween (fromTrkPrt rt (hd e)) (fromTrkPrt rt (b ! k)) (fromTrkPrt rt (b ! (k + 1)))
         else False),
      c_isMinDist = js_le (dist_at rt b e k) (minDist_at rt b e thr k)\<rparr>"

section \<open>Sample data\<close>

text \<open>
  The runtime functions at the arguments the examples below use, as a JavaScript engine
  computes them (no other argument is used): \<open>Number.parseFloat\<close> of three coordinate
  strings; the haversine distance between equal coordinates, which is exactly 0, and
  between \<open>(40, -105)\<close> and \<open>(41, -105)\<close>, one degree of latitude or about 111195 m;
  \<open>Date.parse\<close> of two timestamps, the second being the earliest instant a \<open>Date\<close> can
  hold; \<open>toISOString\<close> of the three seconds before the first.
\<close>

definition sample_rt :: runtime where
  "sample_rt =
     \<lparr>Number_parseFloat =
        (\<lambda>s. if s = ''40.0'' then Fin 40 else if s = ''41.0'' then Fin 41
             else if s = ''-105.0'' then Fin (- 105) else NaN),
      haversineDist = (\<lambda>p q. if p = q then Fin 0 else Fin 111195),
      Date_parse =
        (\<lambda>s. if s = ''2021-12-18T20:14:37Z'' then Some 1639858477000
             else if s = ''-271821-04-20T00:00:00.000Z'' then Some (- 8640000000000000)
             else None),
      Date_toISOString =
        (\<lambda>t. if t = 1639858476000 then ''2021-12-18T20:14:36.000Z''
             else if t = 1639858475000 then ''2021-12-18T20:14:35.000Z''
             else if t = 1639858474000 then ''2021-12-18T20:14:34.000Z''
             else [])\<rparr>"

text \<open>Two begin points, at \<open>(41, -105)\<close> and at \<open>(40, -105)\<close>; the first point of an end
  track at \<open>(40, -105)\<close>, and a second one; a first end point stamped with the earliest
  instant.\<close>

definition farPoint :: TrkPrt where
  "farPoint = \<lparr>time = ''2021-12-11T19:00:00Z'', ele = Some (Fin 1700), at_lat = ''41.0'',
                at_lon = ''-105.0''\<rparr>"

definition nearPoint :: TrkPrt where
  "nearPoint = \<lparr>time = ''2021-12-11T19:00:01Z'', ele = None, at_lat = ''40.0'',
                 at_lon = ''-105.0''\<rparr>"

definition endFirst :: TrkPrt where
  "endFirst = \<lparr>time = ''2021-12-18T20:14:37Z'', ele = Some (Fin 1600), at_lat = ''40.0'',
                at_lon = ''-105.0''\<rparr>"

definition endSecond :: TrkPrt where
  "endSecond = \<lparr>time = ''2021-12-18T20:14:38Z'', ele = Some (Fin 1601), at_lat = ''41.0'',
                 at_lon = ''-105.0''\<rparr>"

definition endEarliest :: TrkPrt where
  "endEarliest = \<lparr>time = ''-271821-04-20T00:00:00.000Z'', ele = None, at_lat = ''40.0'',
                   at_lon = ''-105.0''\<rparr>"

text \<open>The operator who answers every question with the given line.\<close>

definition always :: "string \<Rightarrow> nat \<Rightarrow> string option" where
  "always line i = Some line"

text \<open>A begin track whose first point is a degree away and whose other two points are
  at the merge point; an end track; an operator who declines every candidate but the one
  at index 2.\<close>

definition sampleBegin :: "TrkPrt list" where
  "sampleBegin = [farPoint, nearPoint, nearPoint]"

definition sampleEnd :: "TrkPrt list" where
  "sampleEnd = [endFirst, endSecond]"

definition no_then_yes :: "nat \<Rightarrow> string option" where
  "no_then_yes i = (if i = 2 then Some ''Yes'' else Some ''n'')"

section \<open>Properties of the between-check and of the prompt\<close>

lemma js_le_NaN_right [simp]: "js_le x NaN = False"
  by (cases x) simp_all

lemma matchesAt_y: "matchesAt [''y'', ''yes''] s = (take 1 s = ''y'')"
proof (cases s)
  case Nil
  then show ?thesis by simp
next
  case (Cons c cs)
  then show ?thesis by auto
qed

lemma regex_search_y: "regex_search [''y'', ''yes''] s = (CHR ''y'' \<in> set s)"
proof (induction s)
  case Nil
  show ?case by simp
next
  case (Cons c cs)
  have "regex_search [''y'', ''yes''] (c # cs) =
      (take 1 (c # cs) = ''y'' \<or> regex_search [''y'', ''yes''] cs)"
    unfolding regex_search.simps matchesAt_y ..
  then show ?case using Cons.IH by auto
qed

lemma toLowerCase_char_y:
  "(toLowerCase_char c = CHR ''y'') = (c = CHR ''y'' \<or> c = CHR ''Y'')"
proof -
  have upper: "(c = CHR ''Y'') = (of_char c = (89::nat))"
    using of_char_eq_iff [of c "CHR ''Y''", where ?'a = nat] by simp
  have code: "(d = CHR ''y'') = (of_char d = (121::nat))" for d
    using of_char_eq_iff [of d "CHR ''y''", where ?'a = nat] by simp
  show ?thesis
    unfolding toLowerCase_char_def upper code [of c]
    by (auto simp: code of_char_of)
qed

lemma toLowerCase_has_y:
  "(CHR ''y'' \<in> set (toLowerCase answer)) = (CHR ''y'' \<in> set answer \<or> CHR ''Y'' \<in> set answer)"
proof (induction answer)
  case Nil
  show ?case by (simp add: toLowerCase_def)
next
  case (Cons c cs)
  have "(CHR ''y'' \<in> set (toLowerCase (c # cs))) =
      (toLowerCase_char c = CHR ''y'' \<or> CHR ''y'' \<in> set (toLowerCase cs))"
    by (auto simp: toLowerCase_def)
  then show ?case unfolding toLowerCase_char_y Cons.IH by auto
qed

lemma userConfirm_letters:
  "userConfirm answer = (CHR ''y'' \<in> set answer \<or> CHR ''Y'' \<in> set answer)"
  by (simp add: userConfirm_def regex_search_y toLowerCase_has_y)

text \<open>
  Claim C5.  \<open>isBetween(p, a, b)\<close> is true exactly when the latitude of \<open>p\<close> lies in the
  closed interval from the smaller to the larger latitude of \<open>a\<close> and \<open>b\<close>, or its
  longitude lies in the closed interval of their longitudes.  The point \<open>(0,0)\<close> is
  between \<open>(-1,-1)\<close> and \<open>(1,1)\<close>; the point \<open>(5,5)\<close> is not between \<open>(0,0)\<close> and \<open>(1,1)\<close>.
\<close>

theorem isBetween_closed_intervals:
  "isBetween p a b =
     (in_closed_interval (lat p) (js_min (lat a) (lat b)) (js_max (lat a) (lat b)) \<or>
      in_closed_interval (lng p) (js_min (lng a) (lng b)) (js_max (lng a) (lng b)))
   \<and> isBetween \<lparr>lat = Fin 0, lng = Fin 0\<rparr> \<lparr>lat = Fin (- 1), lng = Fin (- 1)\<rparr>
         \<lparr>lat = Fin 1, lng = Fin 1\<rparr> = True
   \<and> isBetween \<lparr>lat = Fin 5, lng = Fin 5\<rparr> \<lparr>lat = Fin 0, lng = Fin 0\<rparr>
         \<lparr>lat = Fin 1, lng = Fin 1\<rparr> = False"
proof -
  have one: "(js_le x v \<and> js_le v y \<or> js_le y v \<and> js_le v x) =
      in_closed_interval v (js_min x y) (js_max x y)" for x y v
    by (cases x; cases y; cases v) (auto simp: in_closed_interval_def js_min_def js_max_def)
  have general: "isBetween p a b =
     (in_closed_interval (lat p) (js_min (lat a) (lat b)) (js_max (lat a) (lat b)) \<or>
      in_closed_interval (lng p) (js_min (lng a) (lng b)) (js_max (lng a) (lng b)))"
    unfolding isBetween_def one [symmetric] by auto
  have inside: "isBetween \<lparr>lat = Fin 0, lng = Fin 0\<rparr> \<lparr>lat = Fin (- 1), lng = Fin (- 1)\<rparr>
     \<lparr>lat = Fin 1, lng = Fin 1\<rparr> = True"
    by (simp add: isBetween_def)
  have outside: "isBetween \<lparr>lat = Fin 5, lng = Fin 5\<rparr> \<lparr>lat = Fin 0, lng = Fin 0\<rparr>
     \<lparr>lat = Fin 1, lng = Fin 1\<rparr> = False"
    by (simp add: isBetween_def)
  from general inside outside show ?thesis by blast
qed

text \<open>
  Claim C10.  \<open>userConfirm\<close> resolves true exactly when the lower-cased answer contains
  the letter \<open>y\<close> somewhere, that is when the answer contains \<open>y\<close> or \<open>Y\<close>: the pattern is
  not anchored.  The answers \<open>nay\<close> and \<open>any\<close> confirm the merge; \<open>no\<close> and the empty
  answer do not.
\<close>

theorem userConfirm_contains_y:
  "userConfirm answer = (CHR ''y'' \<in> set (toLowerCase answer))
   \<and> userConfirm answer = (CHR ''y'' \<in> set answer \<or> CHR ''Y'' \<in> set answer)
   \<and> userConfirm ''nay'' = True
   \<and> userConfirm ''any'' = True
   \<and> userConfirm ''no'' = False
   \<and> userConfirm [] = False"
proof -
  have lowered: "userConfirm a = (CHR ''y'' \<in> set (toLowerCase a))" for a
    by (simp add: userConfirm_def regex_search_y)
  have typed: "userConfirm answer = (CHR ''y'' \<in> set answer \<or> CHR ''Y'' \<in> set answer)"
    unfolding lowered by (rule toLowerCase_has_y)
  have nay: "userConfirm ''nay'' = True"
    by (simp add: userConfirm_def toLowerCase_def toLowerCase_char_def)
  have any: "userConfirm ''any'' = True"
    by (simp add: userConfirm_def toLowerCase_def toLowerCase_char_def)
  have no: "userConfirm ''no'' = False"
    by (simp add: userConfirm_def toLowerCase_def toLowerCase_char_def)
  have empty: "userConfirm [] = False"
    by (simp add: userConfirm_def toLowerCase_def)
  from lowered [of answer] typed nay any no empty show ?thesis by blast
qed

section \<open>The scan, index by index\<close>

lemma scan_at_end:
  "\<not> k < length b \<Longrightarrow> scan_at rt b e thr answers k = \<lparr>ended = Exhausted, trace = [NoMergePointFound]\<rparr>"
  by (simp add: scan_at_def scan.simps)

lemma scan_at_skip:
  "k < length b \<Longrightarrow> \<not> qualifies rt b e thr k \<Longrightarrow>
   scan_at rt b e thr answers k = scan_at rt b e thr answers (Suc k)"
  unfolding scan_at_def
  by (subst scan.simps) (simp add: Let_def take_Suc_conv_app_nth qualifies_def dist_at_def)

lemma scan_at_waiting:
  "k < length b \<Longrightarrow> qualifies rt b e thr k \<Longrightarrow> answers k = None \<Longrightarrow>
   scan_at rt b e thr answers k = \<lparr>ended = Waiting k, trace = [Offered (offer_at rt b e thr k)]\<rparr>"
  unfolding scan_at_def
  by (subst scan.simps)
     (simp add: Let_def take_Suc_conv_app_nth qualifies_def dist_at_def offer_at_def)

lemma scan_at_reject:
  "k < length b \<Longrightarrow> qualifies rt b e thr k \<Longrightarrow> answers k = Some a \<Longrightarrow> \<not> userConfirm a \<Longrightarrow>
   scan_at rt b e thr answers k =
     emit (Offered (offer_at rt b e thr k)) (scan_at rt b e thr answers (Suc k))"
  unfolding scan_at_def
  by (subst scan.simps)
     (simp add: Let_def take_Suc_conv_app_nth qualifies_def dist_at_def offer_at_def)

lemma scan_at_confirm:
  "k < length b \<Longrightarrow> qualifies rt b e thr k \<Longrightarrow> answers k = Some a \<Longrightarrow> userConfirm a \<Longrightarrow>
   scan_at rt b e thr answers k =
     (case mergeFiles rt e (take (Suc k) b) of
        Inl er \<Rightarrow> \<lparr>ended = Thrown er, trace = [Offered (offer_at rt b e thr k)]\<rparr>
      | Inr merged \<Rightarrow>
          \<lparr>ended = Merged k, trace = [Offered (offer_at rt b e thr k), WriteFile merged]\<rparr>)"
  unfolding scan_at_def
  by (subst scan.simps)
     (simp add: Let_def take_Suc_conv_app_nth qualifies_def dist_at_def offer_at_def
        split: sum.splits)

lemma findMergePoint_scan_at:
  "e \<noteq> [] \<Longrightarrow> findMergePoint rt b e thr answers = scan_at rt b e thr answers 0"
  by (cases e) (simp_all add: findMergePoint_def scan_at_def)

lemma emit_simps [simp]: "ended (emit ev r) = ended r" "trace (emit ev r) = ev # trace r"
  by (simp_all add: emit_def)

lemma lower_split: "(k \<le> j) = (j = k \<or> Suc k \<le> (j::nat))"
  by auto

lemma range_ex_skip:
  assumes "\<not> H k" "\<not> Q k"
  shows "(\<exists>i. k \<le> i \<and> i < n \<and> Q i \<and> (\<forall>j. k \<le> j \<and> j < i \<longrightarrow> \<not> H j) \<and> P i) =
         (\<exists>i. Suc k \<le> i \<and> i < n \<and> Q i \<and> (\<forall>j. Suc k \<le> j \<and> j < i \<longrightarrow> \<not> H j) \<and> P (i::nat))"
proof -
  have "(k \<le> i \<and> i < n \<and> Q i \<and> (\<forall>j. k \<le> j \<and> j < i \<longrightarrow> \<not> H j) \<and> P i) =
        (Suc k \<le> i \<and> i < n \<and> Q i \<and> (\<forall>j. Suc k \<le> j \<and> j < i \<longrightarrow> \<not> H j) \<and> P i)" for i
    using assms by (subst (1 2) lower_split) (auto)
  then show ?thesis by simp
qed

lemma range_ex_stop:
  assumes "H k" "Q k" "k < n"
  shows "(\<exists>i. k \<le> i \<and> i < n \<and> Q i \<and> (\<forall>j. k \<le> j \<and> j < i \<longrightarrow> \<not> H j) \<and> P i) = P (k::nat)"
proof
  assume "\<exists>i. k \<le> i \<and> i < n \<and> Q i \<and> (\<forall>j. k \<le> j \<and> j < i \<longrightarrow> \<not> H j) \<and> P i"
  then obtain i where i: "k \<le> i" "\<forall>j. k \<le> j \<and> j < i \<longrightarrow> \<not> H j" "P i" by blast
  have "\<not> k < i" using i(2) assms(1) by auto
  with i(1) have "i = k" by simp
  with i(3) show "P k" by simp
next
  assume "P k"
  with assms show "\<exists>i. k \<le> i \<and> i < n \<and> Q i \<and> (\<forall>j. k \<le> j \<and> j < i \<longrightarrow> \<not> H j) \<and> P i"
    by (intro exI [of _ k]) auto
qed

lemma range_ex_pass:
  assumes "\<not> H k" "Q k" "k < n"
  shows "(\<exists>i. k \<le> i \<and> i < n \<and> Q i \<and> (\<forall>j. k \<le> j \<and> j < i \<longrightarrow> \<not> H j) \<and> P i) =
         (P k \<or> (\<exists>i. Suc k \<le> i \<and> i < n \<and> Q i \<and> (\<forall>j. Suc k \<le> j \<and> j < i \<longrightarrow> \<not> H j) \<and> P (i::nat)))"
proof -
  have "(k \<le> i \<and> i < n \<and> Q i \<and> (\<forall>j. k \<le> j \<and> j < i \<longrightarrow> \<not> H j) \<and> P i) =
        (i = k \<and> P k \<or> Suc k \<le> i \<and> i < n \<and> Q i \<and> (\<forall>j. Suc k \<le> j \<and> j < i \<longrightarrow> \<not> H j) \<and> P i)" for i
    using assms by (subst (1 2) lower_split) (auto)
  then show ?thesis by auto
qed

lemma offers_scan_at:
  "(c \<in> set (offers (trace (scan_at rt b e thr answers k)))) =
   (\<exists>i. k \<le> i \<and> i < length b \<and> qualifies rt b e thr i \<and>
        (\<forall>j. k \<le> j \<and> j < i \<longrightarrow> \<not> halts rt b e thr answers j) \<and> c = offer_at rt b e thr i)"
proof (induction "length b - k" arbitrary: k)
  case 0
  then show ?case by (simp add: scan_at_end)
next
  case (Suc n)
  then have k: "k < length b" and n: "n = length b - Suc k" by auto
  note IH = Suc.hyps(1) [OF n]
  show ?case
  proof (cases "qualifies rt b e thr k")
    case False
    then have nh: "\<not> halts rt b e thr answers k" by (simp add: halts_def)
    have eq: "scan_at rt b e thr answers k = scan_at rt b e thr answers (Suc k)"
      using k False by (rule scan_at_skip)
    show ?thesis
      unfolding eq IH by (rule range_ex_skip [where H = "halts rt b e thr answers" and Q = "qualifies rt b e thr" and k = k, OF nh False, symmetric])
  next
    case True
    show ?thesis
    proof (cases "halts rt b e thr answers k")
      case h: True
      have "offers (trace (scan_at rt b e thr answers k)) = [offer_at rt b e thr k]"
      proof (cases "answers k")
        case None
        with k True show ?thesis by (simp add: scan_at_waiting)
      next
        case (Some a)
        with h have "userConfirm a" by (simp add: halts_def)
        with k True Some show ?thesis by (simp add: scan_at_confirm split: sum.splits)
      qed
      then have "(c \<in> set (offers (trace (scan_at rt b e thr answers k)))) =
          (c = offer_at rt b e thr k)" by simp
      also have "\<dots> = (\<exists>i. k \<le> i \<and> i < length b \<and> qualifies rt b e thr i \<and>
        (\<forall>j. k \<le> j \<and> j < i \<longrightarrow> \<not> halts rt b e thr answers j) \<and> c = offer_at rt b e thr i)"
        by (rule range_ex_stop [where H = "halts rt b e thr answers" and Q = "qualifies rt b e thr" and k = k, OF h True k, symmetric])
      finally show ?thesis .
    next
      case nh: False
      with True obtain a where a: "answers k = Some a" "\<not> userConfirm a"
        by (auto simp: halts_def split: option.splits)
      have "(c \<in> set (offers (trace (scan_at rt b e thr answers k)))) =
            (c = offer_at rt b e thr k \<or> c \<in> set (offers (trace (scan_at rt b e thr answers (Suc k)))))"
        using k True a by (simp add: scan_at_reject)
      also have "\<dots> = (\<exists>i. k \<le> i \<and> i < length b \<and> qualifies rt b e thr i \<and>
        (\<forall>j. k \<le> j \<and> j < i \<longrightarrow> \<not> halts rt b e thr answers j) \<and> c = offer_at rt b e thr i)"
        unfolding IH by (rule range_ex_pass [where H = "halts rt b e thr answers" and Q = "qualifies rt b e thr" and k = k, OF nh True k, symmetric])
      finally show ?thesis .
    qed
  qed
qed


lemma scan_at_cases [case_names exhausted skip waiting thrown merged reject]:
  assumes "\<And>k. \<not> k < length b \<Longrightarrow> P k \<lparr>ended = Exhausted, trace = [NoMergePointFound]\<rparr>"
    and "\<And>k. k < length b \<Longrightarrow> \<not> qualifies rt b e thr k \<Longrightarrow> \<not> halts rt b e thr answers k \<Longrightarrow>
           P (Suc k) (scan_at rt b e thr answers (Suc k)) \<Longrightarrow>
           P k (scan_at rt b e thr answers (Suc k))"
    and "\<And>k. k < length b \<Longrightarrow> qualifies rt b e thr k \<Longrightarrow> halts rt b e thr answers k \<Longrightarrow>
           answers k = None \<Longrightarrow>
           P k \<lparr>ended = Waiting k, trace = [Offered (offer_at rt b e thr k)]\<rparr>"
    and "\<And>k a er. k < length b \<Longrightarrow> qualifies rt b e thr k \<Longrightarrow> halts rt b e thr answers k \<Longrightarrow>
           answers k = Some a \<Longrightarrow> userConfirm a \<Longrightarrow>
           mergeFiles rt e (take (Suc k) b) = Inl er \<Longrightarrow>
           P k \<lparr>ended = Thrown er, trace = [Offered (offer_at rt b e thr k)]\<rparr>"
    and "\<And>k a merged. k < length b \<Longrightarrow> qualifies rt b e thr k \<Longrightarrow>
           halts rt b e thr answers k \<Longrightarrow> answers k = Some a \<Longrightarrow> userConfirm a \<Longrightarrow>
           mergeFiles rt e (take (Suc k) b) = Inr merged \<Longrightarrow>
           P k \<lparr>ended = Merged k, trace = [Offered (offer_at rt b e thr k), WriteFile merged]\<rparr>"
    and "\<And>k a. k < length b \<Longrightarrow> qualifies rt b e thr k \<Longrightarrow> \<not> halts rt b e thr answers k \<Longrightarrow>
           answers k = Some a \<Longrightarrow> \<not> userConfirm a \<Longrightarrow>
           P (Suc k) (scan_at rt b e thr answers (Suc k)) \<Longrightarrow>
           P k (emit (Offered (offer_at rt b e thr k)) (scan_at rt b e thr answers (Suc k)))"
  shows "P k (scan_at rt b e thr answers k)"
proof (induction "length b - k" arbitrary: k)
  case 0
  then have "\<not> k < length b" by simp
  then show ?case using assms(1) by (simp add: scan_at_end)
next
  case (Suc n)
  then have k: "k < length b" and n: "n = length b - Suc k" by auto
  note IH = Suc.hyps(1) [OF n]
  show ?case
  proof (cases "qualifies rt b e thr k")
    case False
    then have nh: "\<not> halts rt b e thr answers k" by (simp add: halts_def)
    have eq: "scan_at rt b e thr answers k = scan_at rt b e thr answers (Suc k)"
      using k False by (rule scan_at_skip)
    show ?thesis unfolding eq using k False nh IH by (rule assms(2))
  next
    case True
    show ?thesis
    proof (cases "answers k")
      case None
      then have h: "halts rt b e thr answers k" using True by (simp add: halts_def)
      have eq: "scan_at rt b e thr answers k =
          \<lparr>ended = Waiting k, trace = [Offered (offer_at rt b e thr k)]\<rparr>"
        using k True None by (rule scan_at_waiting)
      show ?thesis unfolding eq using k True h None by (rule assms(3))
    next
      case (Some a)
      show ?thesis
      proof (cases "userConfirm a")
        case yes: True
        then have h: "halts rt b e thr answers k" using True Some by (simp add: halts_def)
        show ?thesis
        proof (cases "mergeFiles rt e (take (Suc k) b)")
          case (Inl er)
          have eq: "scan_at rt b e thr answers k =
              \<lparr>ended = Thrown er, trace = [Offered (offer_at rt b e thr k)]\<rparr>"
            using k True Some yes Inl by (simp add: scan_at_confirm)
          show ?thesis unfolding eq using k True h Some yes Inl by (rule assms(4))
        next
          case (Inr merged)
          have eq: "scan_at rt b e thr answers k =
              \<lparr>ended = Merged k, trace = [Offered (offer_at rt b e thr k), WriteFile merged]\<rparr>"
            using k True Some yes Inr by (simp add: scan_at_confirm)
          show ?thesis unfolding eq using k True h Some yes Inr by (rule assms(5))
        qed
      next
        case no: False
        then have nh: "\<not> halts rt b e thr answers k" using Some by (simp add: halts_def)
        have eq: "scan_at rt b e thr answers k =
            emit (Offered (offer_at rt b e thr k)) (scan_at rt b e thr answers (Suc k))"
          using k True Some no by (rule scan_at_reject)
        show ?thesis unfolding eq using k True nh Some no IH by (rule assms(6))
      qed
    qed
  qed
qed

lemma between_split:
  "\<not> H k \<Longrightarrow> \<forall>j. Suc k \<le> j \<and> j < i \<longrightarrow> \<not> H j \<Longrightarrow> \<forall>j. k \<le> j \<and> j < (i::nat) \<longrightarrow> \<not> H j"
  by (metis Suc_leI le_neq_implies_less)

lemma merged_scan_at:
  "\<forall>i. ended (scan_at rt b e thr answers k) = Merged i \<longrightarrow>
     k \<le> i \<and> i < length b \<and> qualifies rt b e thr i \<and>
     (\<forall>j. k \<le> j \<and> j < i \<longrightarrow> \<not> halts rt b e thr answers j) \<and>
     (\<exists>a. answers i = Some a \<and> userConfirm a) \<and>
     (\<exists>out pre. mergeFiles rt e (take (Suc i) b) = Inr out \<and>
        trace (scan_at rt b e thr answers k) = pre @ [Offered (offer_at rt b e thr i), WriteFile out] \<and>
        writes pre = [])"
proof (induction k rule: scan_at_cases [where rt = rt and b = b and e = e and thr = thr and answers = answers])
  case (exhausted k)
  show ?case by simp
next
  case (skip k)
  show ?case
  proof (intro allI impI)
    fix i assume m: "ended (scan_at rt b e thr answers (Suc k)) = Merged i"
    with skip(4) have *: "Suc k \<le> i \<and> i < length b \<and> qualifies rt b e thr i \<and>
     (\<forall>j. Suc k \<le> j \<and> j < i \<longrightarrow> \<not> halts rt b e thr answers j) \<and>
     (\<exists>a. answers i = Some a \<and> userConfirm a) \<and>
     (\<exists>out pre. mergeFiles rt e (take (Suc i) b) = Inr out \<and>
        trace (scan_at rt b e thr answers (Suc k)) = pre @ [Offered (offer_at rt b e thr i), WriteFile out] \<and>
        writes pre = [])" by blast
    then have "\<forall>j. k \<le> j \<and> j < i \<longrightarrow> \<not> halts rt b e thr answers j"
      using between_split [of "halts rt b e thr answers" k i] skip(3) by blast
    with * show "k \<le> i \<and> i < length b \<and> qualifies rt b e thr i \<and>
     (\<forall>j. k \<le> j \<and> j < i \<longrightarrow> \<not> halts rt b e thr answers j) \<and>
     (\<exists>a. answers i = Some a \<and> userConfirm a) \<and>
     (\<exists>out pre. mergeFiles rt e (take (Suc i) b) = Inr out \<and>
        trace (scan_at rt b e thr answers (Suc k)) = pre @ [Offered (offer_at rt b e thr i), WriteFile out] \<and>
        writes pre = [])" by simp
  qed
next
  case (waiting k)
  show ?case by simp
next
  case (thrown k a er)
  show ?case by simp
next
  case (merged k a merged)
  have "[Offered (offer_at rt b e thr k), WriteFile merged] = [] @ [Offered (offer_at rt b e thr k), WriteFile merged] \<and> writes [] = []"
    by simp
  with merged show ?case by auto
next
  case (reject k a)
  show ?case
  proof (intro allI impI)
    fix i assume "ended (emit (Offered (offer_at rt b e thr k)) (scan_at rt b e thr answers (Suc k))) = Merged i"
    then have m: "ended (scan_at rt b e thr answers (Suc k)) = Merged i" by simp
    with reject(6) have *: "Suc k \<le> i \<and> i < length b \<and> qualifies rt b e thr i \<and>
     (\<forall>j. Suc k \<le> j \<and> j < i \<longrightarrow> \<not> halts rt b e thr answers j) \<and>
     (\<exists>a. answers i = Some a \<and> userConfirm a) \<and>
     (\<exists>out pre. mergeFiles rt e (take (Suc i) b) = Inr out \<and>
        trace (scan_at rt b e thr answers (Suc k)) = pre @ [Offered (offer_at rt b e thr i), WriteFile out] \<and>
        writes pre = [])" by blast
    then obtain out pre where op: "mergeFiles rt e (take (Suc i) b) = Inr out"
        "trace (scan_at rt b e thr answers (Suc k)) = pre @ [Offered (offer_at rt b e thr i), WriteFile out]"
        "writes pre = []" by blast
    have t: "trace (emit (Offered (offer_at rt b e thr k)) (scan_at rt b e thr answers (Suc k))) =
        (Offered (offer_at rt b e thr k) # pre) @ [Offered (offer_at rt b e thr i), WriteFile out]"
      using op(2) by simp
    have w: "writes (Offered (offer_at rt b e thr k) # pre) = []" using op(3) by simp
    have "\<forall>j. k \<le> j \<and> j < i \<longrightarrow> \<not> halts rt b e thr answers j"
      using * between_split [of "halts rt b e thr answers" k i] reject(3) by blast
    with * op(1) t w show "k \<le> i \<and> i < length b \<and> qualifies rt b e thr i \<and>
     (\<forall>j. k \<le> j \<and> j < i \<longrightarrow> \<not> halts rt b e thr answers j) \<and>
     (\<exists>a. answers i = Some a \<and> userConfirm a) \<and>
     (\<exists>out pre. mergeFiles rt e (take (Suc i) b) = Inr out \<and>
        trace (emit (Offered (offer_at rt b e thr k)) (scan_at rt b e thr answers (Suc k))) = pre @ [Offered (offer_at rt b e thr i), WriteFile out] \<and>
        writes pre = [])" by (metis Suc_leD)
  qed
qed


lemma writes_append: "writes (xs @ ys) = writes xs @ writes ys"
  by (induction xs rule: writes.induct) simp_all

lemma writes_scan_at_unmerged:
  "(\<forall>i. ended (scan_at rt b e thr answers k) \<noteq> Merged i) \<longrightarrow>
     writes (trace (scan_at rt b e thr answers k)) = []"
  by (induction k rule: scan_at_cases [where rt = rt and b = b and e = e and thr = thr
        and answers = answers]) simp_all

lemma exhausted_scan_at:
  "(ended (scan_at rt b e thr answers k) = Exhausted) =
     (\<forall>j. k \<le> j \<and> j < length b \<longrightarrow> \<not> halts rt b e thr answers j)"
proof (induction k rule: scan_at_cases [where rt = rt and b = b and e = e and thr = thr
        and answers = answers])
  case (exhausted k)
  then show ?case by auto
next
  case (skip k)
  have "(\<forall>j. k \<le> j \<and> j < length b \<longrightarrow> \<not> halts rt b e thr answers j) =
        (\<forall>j. Suc k \<le> j \<and> j < length b \<longrightarrow> \<not> halts rt b e thr answers j)"
    using skip(3) by (metis Suc_leD Suc_leI le_neq_implies_less)
  with skip(4) show ?case by simp
next
  case (waiting k)
  then show ?case by auto
next
  case (thrown k a er)
  then show ?case by auto
next
  case (merged k a merged)
  then show ?case by auto
next
  case (reject k a)
  have "(\<forall>j. k \<le> j \<and> j < length b \<longrightarrow> \<not> halts rt b e thr answers j) =
        (\<forall>j. Suc k \<le> j \<and> j < length b \<longrightarrow> \<not> halts rt b e thr answers j)"
    using reject(3) by (metis Suc_leD Suc_leI le_neq_implies_less)
  with reject(6) show ?case by simp
qed

lemma exhausted_trace_scan_at:
  "(ended (scan_at rt b e thr answers k) = Exhausted \<longrightarrow>
      last (trace (scan_at rt b e thr answers k)) = NoMergePointFound) \<and>
   trace (scan_at rt b e thr answers k) \<noteq> []"
  by (induction k rule: scan_at_cases [where rt = rt and b = b and e = e and thr = thr
        and answers = answers]) simp_all

lemma js_le_PosInf [simp]: "js_le x PosInf = (x \<noteq> NaN)"
  by (cases x) simp_all

lemma js_le_not_NaN: "js_le x y \<Longrightarrow> x \<noteq> NaN \<and> y \<noteq> NaN"
  by (cases x; cases y) simp_all

lemma js_le_total: "x \<noteq> NaN \<Longrightarrow> y \<noteq> NaN \<Longrightarrow> js_le x y \<or> js_le y x"
  by (cases x; cases y) auto

lemma js_le_trans: "js_le x y \<Longrightarrow> js_le y z \<Longrightarrow> js_le x z"
  by (cases x; cases y; cases z) auto

lemma js_le_refl: "x \<noteq> NaN \<Longrightarrow> js_le x x"
  by (cases x) simp_all

lemma minDist_at_least:
  "minDist_at rt b e thr i \<noteq> NaN \<and>
   (x \<noteq> NaN \<longrightarrow>
      js_le x (minDist_at rt b e thr i) =
        (\<forall>j<i. qualifies rt b e thr j \<longrightarrow> js_le x (dist_at rt b e j)))"
proof (induction i)
  case 0
  show ?case by simp
next
  case (Suc i)
  let ?m = "minDist_at rt b e thr i" and ?d = "dist_at rt b e i"
  have all: "(\<forall>j<Suc i. qualifies rt b e thr j \<longrightarrow> js_le x (dist_at rt b e j)) =
      ((\<forall>j<i. qualifies rt b e thr j \<longrightarrow> js_le x (dist_at rt b e j)) \<and>
       (qualifies rt b e thr i \<longrightarrow> js_le x ?d))"
    by (auto simp: less_Suc_eq)
  show ?case
  proof (cases "qualifies rt b e thr i")
    case False
    then show ?thesis unfolding all using Suc.IH by simp
  next
    case q: True
    then have d: "?d \<noteq> NaN" unfolding qualifies_def by (auto dest: js_le_not_NaN)
    show ?thesis
    proof (cases "js_le ?d ?m")
      case True
      then have new: "minDist_at rt b e thr (Suc i) = ?d" using q by simp
      have "x \<noteq> NaN \<longrightarrow> js_le x ?d = (js_le x ?m \<and> js_le x ?d)"
        using True js_le_trans by blast
      then show ?thesis unfolding all new using Suc.IH d q by auto
    next
      case False
      then have new: "minDist_at rt b e thr (Suc i) = ?m" by simp
      have "js_le ?m ?d" using False d Suc.IH js_le_total by blast
      then have "x \<noteq> NaN \<longrightarrow> js_le x ?m = (js_le x ?m \<and> js_le x ?d)"
        using js_le_trans by blast
      then show ?thesis unfolding all new using Suc.IH q by auto
    qed
  qed
qed


section \<open>The retiming loop and the splice\<close>

lemma Date_new_toISOString_Some:
  "Date_new_toISOString rt (Some v) =
     (if valid_time v then Inr (Date_toISOString rt v) else Inl RangeError)"
  by (simp add: Date_new_toISOString_def valid_time_def)

lemma forEach_retime_Some:
  "forEach_retime rt (Some s) idx ts =
     (if \<forall>i<length ts. valid_time (s + int (idx + i) * 1000)
      then Inr (map (\<lambda>i. (ts ! i)\<lparr>time := Date_toISOString rt (s + int (idx + i) * 1000)\<rparr>)
                  [0..<length ts])
      else Inl RangeError)"
proof (induction ts arbitrary: idx)
  case Nil
  show ?case by simp
next
  case (Cons t ts)
  have split: "(\<forall>i<length (t # ts). valid_time (s + int (idx + i) * 1000)) =
      (valid_time (s + int idx * 1000) \<and>
       (\<forall>i<length ts. valid_time (s + int (Suc idx + i) * 1000)))"
    by (simp add: All_less_Suc2 algebra_simps)
  have shift: "map (\<lambda>i. ((t # ts) ! i)\<lparr>time := Date_toISOString rt (s + int (idx + i) * 1000)\<rparr>)
        [0..<length (t # ts)] =
      t\<lparr>time := Date_toISOString rt (s + int idx * 1000)\<rparr> #
      map (\<lambda>i. (ts ! i)\<lparr>time := Date_toISOString rt (s + int (Suc idx + i) * 1000)\<rparr>)
        [0..<length ts]"
    by (simp add: map_upt_Suc algebra_simps del: upt_Suc)
  show ?case
    unfolding split shift
    by (simp add: Date_new_toISOString_Some Cons.IH)
qed

lemma forEach_retime_None:
  "forEach_retime rt None idx ts = (if ts = [] then Inr [] else Inl RangeError)"
  by (cases ts) (simp_all add: Date_new_toISOString_def)

lemma mergeFiles_parsed:
  assumes "Date_parse rt (time firstTrkInEnd) = Some T"
  shows "mergeFiles rt (firstTrkInEnd # rest) toMerge =
     (if \<forall>i<length toMerge. valid_time (T - (int (length toMerge) - int i) * 1000)
      then Inr (retimed rt T toMerge @ firstTrkInEnd # rest) else Inl RangeError)"
proof -
  have eq: "T - int (length toMerge) * 1000 + int (0 + i) * 1000 =
      T - (int (length toMerge) - int i) * 1000" for i
    by (simp add: algebra_simps)
  have loop: "forEach_retime rt (Some (T - int (length toMerge) * 1000)) 0 toMerge =
     (if \<forall>i<length toMerge. valid_time (T - (int (length toMerge) - int i) * 1000)
      then Inr (retimed rt T toMerge) else Inl RangeError)"
    unfolding forEach_retime_Some eq retimed_def ..
  show ?thesis
    by (simp add: mergeFiles_def assms loop)
qed

lemma mergeFiles_unparsed:
  assumes "Date_parse rt (time firstTrkInEnd) = None"
  shows "mergeFiles rt (firstTrkInEnd # rest) toMerge =
     (if toMerge = [] then Inr (firstTrkInEnd # rest) else Inl RangeError)"
  by (simp add: mergeFiles_def assms forEach_retime_None)

lemma mergeFiles_Inr:
  assumes "mergeFiles rt e toMerge = Inr out" and "toMerge \<noteq> []"
  shows "\<exists>T. e \<noteq> [] \<and> Date_parse rt (time (hd e)) = Some T \<and> out = retimed rt T toMerge @ e \<and>
             (\<forall>i<length toMerge. valid_time (T - (int (length toMerge) - int i) * 1000))"
proof (cases e)
  case Nil
  with assms show ?thesis by (simp add: mergeFiles_def)
next
  case (Cons first rest)
  show ?thesis
  proof (cases "Date_parse rt (time first)")
    case None
    with assms Cons show ?thesis by (simp add: mergeFiles_unparsed)
  next
    case (Some T)
    with assms Cons show ?thesis
      by (simp add: mergeFiles_parsed split: if_splits)
  qed
qed

lemma valid_time_between:
  assumes "- 8640000000000000 \<le> T - int N * 1000" and "T \<le> 8640000000000000" and "i < N"
  shows "valid_time (T - (int N - int i) * 1000)"
  using assms unfolding valid_time_def by (simp add: algebra_simps)

lemma retimeFile_parsed:
  assumes "Date_parse rt ''2021-12-18T20:14:37Z'' = Some T"
  shows "retimeFile rt trkPrts =
     (if \<forall>i<length trkPrts. valid_time (T - (int (length trkPrts) - int i) * 1000)
      then Inr (retimed rt T trkPrts) else Inl RangeError)"
proof -
  have eq: "T - int (length trkPrts) * 1000 + int (0 + i) * 1000 =
      T - (int (length trkPrts) - int i) * 1000" for i
    by (simp add: algebra_simps)
  have loop: "forEach_retime rt (Some (T - int (length trkPrts) * 1000)) 0 trkPrts =
     (if \<forall>i<length trkPrts. valid_time (T - (int (length trkPrts) - int i) * 1000)
      then Inr (retimed rt T trkPrts) else Inl RangeError)"
    unfolding forEach_retime_Some eq retimed_def ..
  show ?thesis
    by (simp add: retimeFile_def assms loop)
qed

lemma length_retimed [simp]: "length (retimed rt T ts) = length ts"
  by (simp add: retimed_def)

lemma nth_retimed:
  "i < length ts \<Longrightarrow>
   retimed rt T ts ! i = (ts ! i)\<lparr>time := Date_toISOString rt (T - (int (length ts) - int i) * 1000)\<rparr>"
  by (simp add: retimed_def)

lemma map_time_retimed:
  "map time (retimed rt T ts) = map (Date_toISOString rt) (retimed_instants T (length ts))"
  by (simp add: retimed_def retimed_instants_def)


lemma retimed_instants_nth:
  "i < N \<Longrightarrow> retimed_instants T N ! i = T - (int N - int i) * 1000"
  by (simp add: retimed_instants_def)

lemma retimed_instants_ends:
  "0 < N \<Longrightarrow> hd (retimed_instants T N) = T - int N * 1000 \<and>
             last (retimed_instants T N) = T - 1000"
proof -
  assume N: "0 < N"
  then have ne: "[0..<N] \<noteq> []" by simp
  have "hd (retimed_instants T N) = T - int N * 1000"
    unfolding retimed_instants_def hd_map [OF ne] using N by simp
  moreover have "last (retimed_instants T N) = T - 1000"
    unfolding retimed_instants_def last_map [OF ne] using N
    by (simp add: algebra_simps of_nat_diff)
  ultimately show ?thesis by simp
qed

text \<open>
  Claim C1, as amended.  Let \<open>T\<close> be the parsed timestamp of the first point of the end
  track and \<open>N \<ge> 1\<close> the number of accepted points.  Provided \<open>T - N\<close> seconds is still
  a time value a \<open>Date\<close> can hold, \<open>mergeFiles\<close> succeeds and gives the point at index
  \<open>i\<close> the instant \<open>T - (N - i)\<close> seconds: the instants increase by exactly one second,
  the first is \<open>T - N\<close> seconds and the last is \<open>T - 1\<close> second.
\<close>

theorem retimer_instants:
  assumes "Date_parse rt (time firstTrkInEnd) = Some T"
    and "valid_time T"
    and "valid_time (T - int (length toMerge) * 1000)"
    and "toMerge \<noteq> []"
  shows "\<exists>prefix. mergeFiles rt (firstTrkInEnd # rest) toMerge = Inr (prefix @ firstTrkInEnd # rest) \<and>
           length prefix = length toMerge \<and>
           map time prefix = map (Date_toISOString rt) (retimed_instants T (length toMerge)) \<and>
           (\<forall>i<length toMerge.
              retimed_instants T (length toMerge) ! i = T - (int (length toMerge) - int i) * 1000) \<and>
           (\<forall>i. Suc i < length toMerge \<longrightarrow>
              retimed_instants T (length toMerge) ! Suc i =
              retimed_instants T (length toMerge) ! i + 1000) \<and>
           hd (retimed_instants T (length toMerge)) = T - int (length toMerge) * 1000 \<and>
           last (retimed_instants T (length toMerge)) = T - 1000"
proof -
  let ?N = "length toMerge"
  have lo: "- 8640000000000000 \<le> T - int ?N * 1000" and hi: "T \<le> 8640000000000000"
    using assms(2,3) by (simp_all add: valid_time_def)
  have ok: "\<forall>i<?N. valid_time (T - (int ?N - int i) * 1000)"
    using valid_time_between [OF lo hi] by blast
  have run: "mergeFiles rt (firstTrkInEnd # rest) toMerge =
      Inr (retimed rt T toMerge @ firstTrkInEnd # rest)"
    using ok by (simp add: mergeFiles_parsed [OF assms(1)])
  have step: "\<forall>i. Suc i < ?N \<longrightarrow>
      retimed_instants T ?N ! Suc i = retimed_instants T ?N ! i + 1000"
    by (simp add: retimed_instants_nth algebra_simps)
  have N: "0 < ?N" using assms(4) by simp
  show ?thesis
    using run step retimed_instants_ends [OF N, of T] map_time_retimed [of rt T toMerge]
    by (intro exI [of _ "retimed rt T toMerge"]) (simp add: retimed_instants_nth)
qed

theorem retimer_instants_witness:
  "mergeFiles sample_rt [endFirst, endSecond] [farPoint, nearPoint] =
     Inr [farPoint\<lparr>time := ''2021-12-18T20:14:35.000Z''\<rparr>,
          nearPoint\<lparr>time := ''2021-12-18T20:14:36.000Z''\<rparr>, endFirst, endSecond] \<and>
   retimed_instants 1639858477000 2 = [1639858475000, 1639858476000]"
proof -
  have p: "Date_parse sample_rt (time endFirst) = Some 1639858477000"
    by (simp add: sample_rt_def endFirst_def)
  have a: "valid_time 1639858477000" by (simp add: valid_time_def)
  have b: "valid_time (1639858477000 - int (length [farPoint, nearPoint]) * 1000)"
    by (simp add: valid_time_def)
  have c: "[farPoint, nearPoint] \<noteq> []" by simp
  from retimer_instants [OF p a b c, of "[endSecond]"]
  obtain prefix where
    m: "mergeFiles sample_rt [endFirst, endSecond] [farPoint, nearPoint] =
          Inr (prefix @ [endFirst, endSecond])"
    and l: "length prefix = length [farPoint, nearPoint]" by blast
  have r: "retimed_instants 1639858477000 2 = [1639858475000, 1639858476000]"
    by (simp add: retimed_instants_def numeral_2_eq_2)
  have "mergeFiles sample_rt [endFirst, endSecond] [farPoint, nearPoint] =
     Inr [farPoint\<lparr>time := ''2021-12-18T20:14:35.000Z''\<rparr>,
          nearPoint\<lparr>time := ''2021-12-18T20:14:36.000Z''\<rparr>, endFirst, endSecond]"
    by (simp add: mergeFiles_def Date_new_toISOString_def sample_rt_def endFirst_def)
  with r show ?thesis by simp
qed

text \<open>
  Without that proviso the claim fails: for an end track that starts at the earliest
  instant of \<open>Date\<close>, one second earlier is no date, \<open>toISOString\<close> throws a
  \<open>RangeError\<close> and no timestamp is assigned.
\<close>

theorem retimer_range_counterexample:
  "valid_time (- 8640000000000000) \<and>
   Date_parse sample_rt (time endEarliest) = Some (- 8640000000000000) \<and>
   mergeFiles sample_rt [endEarliest] [nearPoint] = Inl RangeError"
  by (simp add: valid_time_def mergeFiles_def Date_new_toISOString_def sample_rt_def
      endEarliest_def)

text \<open>
  Claim C9.  Retiming changes only the timestamp of a point of the accepted prefix: in
  the output of \<open>mergeFiles\<close> the point at every index \<open>i\<close> of the prefix has the
  latitude, the longitude and the elevation of the input point, and is the input point
  but for \<open>time\<close>.
\<close>

theorem retiming_changes_only_time:
  assumes "mergeFiles rt endTrkPrts toMerge = Inr out" and "i < length toMerge"
  shows "at_lat (out ! i) = at_lat (toMerge ! i) \<and> at_lon (out ! i) = at_lon (toMerge ! i) \<and>
         ele (out ! i) = ele (toMerge ! i) \<and> out ! i = (toMerge ! i)\<lparr>time := time (out ! i)\<rparr>"
proof -
  from assms have ne: "toMerge \<noteq> []" by auto
  from mergeFiles_Inr [OF assms(1) ne] obtain T where
    out: "out = retimed rt T toMerge @ endTrkPrts" by blast
  have "out ! i = retimed rt T toMerge ! i"
    unfolding out using assms(2) by (simp add: nth_append)
  then show ?thesis using assms(2) by (simp add: nth_retimed)
qed

theorem retiming_changes_only_time_witness:
  "at_lat (nearPoint\<lparr>time := ''2021-12-18T20:14:36.000Z''\<rparr>) = ''40.0'' \<and>
   at_lon (nearPoint\<lparr>time := ''2021-12-18T20:14:36.000Z''\<rparr>) = ''-105.0'' \<and>
   ele (nearPoint\<lparr>time := ''2021-12-18T20:14:36.000Z''\<rparr>) = None \<and>
   mergeFiles sample_rt [endFirst] [nearPoint] =
     Inr [nearPoint\<lparr>time := ''2021-12-18T20:14:36.000Z''\<rparr>, endFirst]"
proof -
  have m: "mergeFiles sample_rt [endFirst] [nearPoint] =
     Inr [nearPoint\<lparr>time := ''2021-12-18T20:14:36.000Z''\<rparr>, endFirst]"
    by (simp add: mergeFiles_def Date_new_toISOString_def sample_rt_def endFirst_def)
  have i: "0 < length [nearPoint]" by simp
  from retiming_changes_only_time [OF m i] show ?thesis
    using m by (simp add: nearPoint_def)
qed


section \<open>Runs of the search\<close>

lemmas sample_defs = sample_rt_def farPoint_def nearPoint_def endFirst_def endSecond_def
  sampleBegin_def sampleEnd_def no_then_yes_def always_def

lemmas run_defs = findMergePoint_def scan.simps Let_def fromTrkPrt_def emit_def
  userConfirm_letters mergeFiles_def
  Date_new_toISOString_def isBetween_def

lemma sample_run:
  "findMergePoint sample_rt sampleBegin sampleEnd (Fin 10) no_then_yes =
     \<lparr>ended = Merged 2,
      trace =
        [Offered \<lparr>c_index = 1, c_trkPrt = nearPoint, c_minDist = Fin 0, c_inBetween = True,
                  c_isMinDist = True\<rparr>,
         Offered \<lparr>c_index = 2, c_trkPrt = nearPoint, c_minDist = Fin 0, c_inBetween = False,
                  c_isMinDist = True\<rparr>,
         WriteFile [farPoint\<lparr>time := ''2021-12-18T20:14:34.000Z''\<rparr>,
                    nearPoint\<lparr>time := ''2021-12-18T20:14:35.000Z''\<rparr>,
                    nearPoint\<lparr>time := ''2021-12-18T20:14:36.000Z''\<rparr>,
                    endFirst, endSecond]]\<rparr>"
  by (simp add: run_defs sample_defs)


lemma single_point_run:
  "findMergePoint sample_rt [nearPoint] [endFirst] (Fin 10) (always ''n'') =
     \<lparr>ended = Exhausted,
      trace =
        [Offered \<lparr>c_index = 0, c_trkPrt = nearPoint, c_minDist = Fin 0, c_inBetween = False,
                  c_isMinDist = True\<rparr>,
         NoMergePointFound]\<rparr>"
  by (simp add: run_defs sample_defs)


lemma offers_findMergePoint:
  assumes "e \<noteq> []"
  shows "(c \<in> set (offers (trace (findMergePoint rt b e thr answers)))) =
     (\<exists>i<length b. qualifies rt b e thr i \<and> reached rt b e thr answers i \<and>
        c = offer_at rt b e thr i)"
  unfolding findMergePoint_scan_at [OF assms] offers_scan_at reached_def by auto

lemma unqualified_scan_at:
  "(\<forall>j. k \<le> j \<and> j < length b \<longrightarrow> \<not> qualifies rt b e thr j) \<longrightarrow>
     scan_at rt b e thr answers k = \<lparr>ended = Exhausted, trace = [NoMergePointFound]\<rparr>"
proof (induction k rule: scan_at_cases [where rt = rt and b = b and e = e and thr = thr
        and answers = answers])
  case (exhausted k)
  show ?case by simp
next
  case (skip k)
  then show ?case by (metis Suc_leD)
next
  case (waiting k)
  then show ?case by auto
next
  case (thrown k a er)
  then show ?case by auto
next
  case (merged k a merged)
  then show ?case by auto
next
  case (reject k a)
  then show ?case by auto
qed

lemma merged_run:
  assumes "ended (findMergePoint rt b e thr answers) = Merged i"
  shows "e \<noteq> [] \<and> i < length b \<and> qualifies rt b e thr i \<and> reached rt b e thr answers i \<and>
     (\<exists>a. answers i = Some a \<and> userConfirm a) \<and>
     (\<exists>T pre. Date_parse rt (time (hd e)) = Some T \<and>
        (\<forall>k<Suc i. valid_time (T - (int (Suc i) - int k) * 1000)) \<and>
        mergeFiles rt e (take (Suc i) b) = Inr (retimed rt T (take (Suc i) b) @ e) \<and>
        trace (findMergePoint rt b e thr answers) =
          pre @ [Offered (offer_at rt b e thr i), WriteFile (retimed rt T (take (Suc i) b) @ e)] \<and>
        writes pre = [] \<and>
        writes (trace (findMergePoint rt b e thr answers)) = [retimed rt T (take (Suc i) b) @ e])"
proof -
  have e: "e \<noteq> []" using assms by (auto simp: findMergePoint_def)
  note eq = findMergePoint_scan_at [OF e, of rt b thr answers]
  from assms merged_scan_at [of rt b e thr answers 0] have
    i: "i < length b" and q: "qualifies rt b e thr i"
    and r: "\<forall>j. 0 \<le> j \<and> j < i \<longrightarrow> \<not> halts rt b e thr answers j"
    and a: "\<exists>a. answers i = Some a \<and> userConfirm a"
    and o: "\<exists>out pre. mergeFiles rt e (take (Suc i) b) = Inr out \<and>
        trace (scan_at rt b e thr answers 0) =
          pre @ [Offered (offer_at rt b e thr i), WriteFile out] \<and> writes pre = []"
    unfolding eq by blast+
  from o obtain out pre where m: "mergeFiles rt e (take (Suc i) b) = Inr out"
    and t: "trace (scan_at rt b e thr answers 0) =
          pre @ [Offered (offer_at rt b e thr i), WriteFile out]"
    and w: "writes pre = []" by blast
  have ne: "take (Suc i) b \<noteq> []" using i by auto
  have len: "length (take (Suc i) b) = Suc i" using i by simp
  from mergeFiles_Inr [OF m ne] obtain T where
    T: "Date_parse rt (time (hd e)) = Some T" and
    out: "out = retimed rt T (take (Suc i) b) @ e" and
    v: "\<forall>k<Suc i. valid_time (T - (int (Suc i) - int k) * 1000)"
    unfolding len by blast
  have ws: "writes (trace (scan_at rt b e thr answers 0)) = [out]"
    unfolding t by (simp add: writes_append w)
  have reach: "reached rt b e thr answers i" using r by (simp add: reached_def)
  show ?thesis
    unfolding eq using e i q reach a T v m t w ws unfolding out by blast
qed

lemma confirmed_scan_at:
  "\<forall>i. k \<le> i \<and> i < length b \<and> (\<forall>j. k \<le> j \<and> j < i \<longrightarrow> \<not> halts rt b e thr answers j) \<and>
       qualifies rt b e thr i \<and> (\<exists>a. answers i = Some a \<and> userConfirm a) \<and>
       (\<exists>out. mergeFiles rt e (take (Suc i) b) = Inr out) \<longrightarrow>
     ended (scan_at rt b e thr answers k) = Merged i"
proof (induction k rule: scan_at_cases [where rt = rt and b = b and e = e and thr = thr
        and answers = answers])
  case (exhausted k)
  then show ?case by auto
next
  case (skip k)
  show ?case
  proof (intro allI impI)
    fix i
    assume a: "k \<le> i \<and> i < length b \<and> (\<forall>j. k \<le> j \<and> j < i \<longrightarrow> \<not> halts rt b e thr answers j) \<and>
       qualifies rt b e thr i \<and> (\<exists>a. answers i = Some a \<and> userConfirm a) \<and>
       (\<exists>out. mergeFiles rt e (take (Suc i) b) = Inr out)"
    with skip(2) have "i \<noteq> k" by auto
    with a have "Suc k \<le> i" by simp
    moreover have "\<forall>j. Suc k \<le> j \<and> j < i \<longrightarrow> \<not> halts rt b e thr answers j"
      using a by (simp add: Suc_le_eq)
    ultimately show "ended (scan_at rt b e thr answers (Suc k)) = Merged i"
      using a skip(4) by blast
  qed
next
  case (waiting k)
  show ?case
  proof (intro allI impI)
    fix i
    assume a: "k \<le> i \<and> i < length b \<and> (\<forall>j. k \<le> j \<and> j < i \<longrightarrow> \<not> halts rt b e thr answers j) \<and>
       qualifies rt b e thr i \<and> (\<exists>a. answers i = Some a \<and> userConfirm a) \<and>
       (\<exists>out. mergeFiles rt e (take (Suc i) b) = Inr out)"
    with waiting(3) have "\<not> k < i" by auto
    with a have "i = k" by simp
    with a waiting(4) show "ended \<lparr>ended = Waiting k, trace = [Offered (offer_at rt b e thr k)]\<rparr> =
        Merged i" by simp
  qed
next
  case (thrown k a er)
  show ?case
  proof (intro allI impI)
    fix i
    assume a: "k \<le> i \<and> i < length b \<and> (\<forall>j. k \<le> j \<and> j < i \<longrightarrow> \<not> halts rt b e thr answers j) \<and>
       qualifies rt b e thr i \<and> (\<exists>a. answers i = Some a \<and> userConfirm a) \<and>
       (\<exists>out. mergeFiles rt e (take (Suc i) b) = Inr out)"
    with thrown(3) have "\<not> k < i" by auto
    with a have "i = k" by simp
    with a thrown(6) show "ended \<lparr>ended = Thrown er, trace = [Offered (offer_at rt b e thr k)]\<rparr> =
        Merged i" by simp
  qed
next
  case (merged k a merged)
  show ?case
  proof (intro allI impI)
    fix i
    assume a: "k \<le> i \<and> i < length b \<and> (\<forall>j. k \<le> j \<and> j < i \<longrightarrow> \<not> halts rt b e thr answers j) \<and>
       qualifies rt b e thr i \<and> (\<exists>a. answers i = Some a \<and> userConfirm a) \<and>
       (\<exists>out. mergeFiles rt e (take (Suc i) b) = Inr out)"
    with merged(3) have "\<not> k < i" by auto
    with a have "i = k" by simp
    then show "ended \<lparr>ended = Merged k,
        trace = [Offered (offer_at rt b e thr k), WriteFile merged]\<rparr> = Merged i" by simp
  qed
next
  case (reject k a)
  show ?case
  proof (intro allI impI)
    fix i
    assume a: "k \<le> i \<and> i < length b \<and> (\<forall>j. k \<le> j \<and> j < i \<longrightarrow> \<not> halts rt b e thr answers j) \<and>
       qualifies rt b e thr i \<and> (\<exists>a. answers i = Some a \<and> userConfirm a) \<and>
       (\<exists>out. mergeFiles rt e (take (Suc i) b) = Inr out)"
    with reject(4,5) have "i \<noteq> k" by auto
    with a have "Suc k \<le> i" by simp
    moreover have "\<forall>j. Suc k \<le> j \<and> j < i \<longrightarrow> \<not> halts rt b e thr answers j"
      using a by (simp add: Suc_le_eq)
    ultimately have "ended (scan_at rt b e thr answers (Suc k)) = Merged i"
      using a reject(6) by blast
    then show "ended (emit (Offered (offer_at rt b e thr k))
        (scan_at rt b e thr answers (Suc k))) = Merged i" by simp
  qed
qed

lemma merged_iff:
  "(ended (findMergePoint rt b e thr answers) = Merged i) =
     (e \<noteq> [] \<and> i < length b \<and> reached rt b e thr answers i \<and> qualifies rt b e thr i \<and>
      (\<exists>a. answers i = Some a \<and> userConfirm a) \<and>
      (\<exists>out. mergeFiles rt e (take (Suc i) b) = Inr out))"
proof
  assume "ended (findMergePoint rt b e thr answers) = Merged i"
  from merged_run [OF this]
  show "e \<noteq> [] \<and> i < length b \<and> reached rt b e thr answers i \<and> qualifies rt b e thr i \<and>
      (\<exists>a. answers i = Some a \<and> userConfirm a) \<and>
      (\<exists>out. mergeFiles rt e (take (Suc i) b) = Inr out)" by blast
next
  assume a: "e \<noteq> [] \<and> i < length b \<and> reached rt b e thr answers i \<and> qualifies rt b e thr i \<and>
      (\<exists>a. answers i = Some a \<and> userConfirm a) \<and>
      (\<exists>out. mergeFiles rt e (take (Suc i) b) = Inr out)"
  then have e: "e \<noteq> []" by simp
  have "\<forall>j. 0 \<le> j \<and> j < i \<longrightarrow> \<not> halts rt b e thr answers j"
    using a by (simp add: reached_def)
  with a confirmed_scan_at [of 0 b rt e thr answers]
  show "ended (findMergePoint rt b e thr answers) = Merged i"
    unfolding findMergePoint_scan_at [OF e] by blast
qed

lemma confirmed_run_merges:
  assumes "e \<noteq> []" and "i < length b" and "reached rt b e thr answers i"
    and "qualifies rt b e thr i" and "answers i = Some a" and "userConfirm a"
    and "Date_parse rt (time (hd e)) = Some T" and "valid_time T"
    and "valid_time (T - int (Suc i) * 1000)"
  shows "ended (findMergePoint rt b e thr answers) = Merged i"
proof -
  obtain first rest where e: "e = first # rest" using assms(1) by (cases e) auto
  have T: "Date_parse rt (time first) = Some T" using assms(7) e by simp
  have len: "length (take (Suc i) b) = Suc i" using assms(2) by simp
  have lo: "- 8640000000000000 \<le> T - int (Suc i) * 1000" and hi: "T \<le> 8640000000000000"
    using assms(8,9) by (simp_all add: valid_time_def)
  have ok: "\<forall>k<Suc i. valid_time (T - (int (Suc i) - int k) * 1000)"
    using valid_time_between [OF lo hi] by blast
  have "mergeFiles rt e (take (Suc i) b) = Inr (retimed rt T (take (Suc i) b) @ e)"
    unfolding e mergeFiles_parsed [OF T] len using ok by simp
  then show ?thesis
    unfolding merged_iff using assms by blast
qed






text \<open>
  Claim C4.  A candidate is flagged as the running minimum exactly when its distance is at
  most the distance of every qualifying point scanned before it, that is at most
  \<open>minDist\<close>, which starts at positive infinity.  In particular a candidate whose distance
  ties with the running minimum is flagged: the comparison is \<open><=\<close>, so the later index
  takes the flag.  The first qualifying point is always flagged.
\<close>

theorem minimum_flag:
  assumes "e \<noteq> []" and "c \<in> set (offers (trace (findMergePoint rt b e thr answers)))"
  shows "c_isMinDist c =
           (\<forall>j<c_index c. qualifies rt b e thr j \<longrightarrow>
              js_le (dist_at rt b e (c_index c)) (dist_at rt b e j)) \<and>
         c_isMinDist c = js_le (dist_at rt b e (c_index c)) (minDist_at rt b e thr (c_index c)) \<and>
         (minDist_at rt b e thr (c_index c) = dist_at rt b e (c_index c) \<longrightarrow> c_isMinDist c) \<and>
         (minDist_at rt b e thr (c_index c) = PosInf \<longrightarrow> c_isMinDist c)"
proof -
  from assms obtain i where i: "i < length b" and q: "qualifies rt b e thr i"
    and c: "c = offer_at rt b e thr i"
    unfolding offers_findMergePoint [OF assms(1)] by blast
  have idx: "c_index c = i" and flag: "c_isMinDist c =
      js_le (dist_at rt b e i) (minDist_at rt b e thr i)"
    unfolding c by (simp_all add: offer_at_def)
  have d: "dist_at rt b e i \<noteq> NaN"
    using q unfolding qualifies_def by (auto dest: js_le_not_NaN)
  from minDist_at_least [of rt b e thr i "dist_at rt b e i"] d
  have all: "js_le (dist_at rt b e i) (minDist_at rt b e thr i) =
      (\<forall>j<i. qualifies rt b e thr j \<longrightarrow> js_le (dist_at rt b e i) (dist_at rt b e j))"
    by blast
  have tie: "minDist_at rt b e thr i = dist_at rt b e i \<longrightarrow>
      js_le (dist_at rt b e i) (minDist_at rt b e thr i)"
    using d by (simp add: js_le_refl)
  have inf: "minDist_at rt b e thr i = PosInf \<longrightarrow>
      js_le (dist_at rt b e i) (minDist_at rt b e thr i)"
    using d by simp
  show ?thesis unfolding idx flag using all tie inf by blast
qed

theorem minimum_flag_witness:
  "offers (trace (findMergePoint sample_rt sampleBegin sampleEnd (Fin 10) no_then_yes)) =
     [\<lparr>c_index = 1, c_trkPrt = nearPoint, c_minDist = Fin 0, c_inBetween = True,
       c_isMinDist = True\<rparr>,
      \<lparr>c_index = 2, c_trkPrt = nearPoint, c_minDist = Fin 0, c_inBetween = False,
       c_isMinDist = True\<rparr>] \<and>
   minDist_at sample_rt sampleBegin sampleEnd (Fin 10) 2 = Fin 0 \<and>
   dist_at sample_rt sampleBegin sampleEnd 2 = Fin 0 \<and>
   js_le (dist_at sample_rt sampleBegin sampleEnd 2)
     (minDist_at sample_rt sampleBegin sampleEnd (Fin 10) 2) = True"
proof -
  let ?c = "\<lparr>c_index = 2, c_trkPrt = nearPoint, c_minDist = Fin 0, c_inBetween = False,
       c_isMinDist = True\<rparr>"
  have e: "sampleEnd \<noteq> []" by (simp add: sampleEnd_def)
  have o: "offers (trace (findMergePoint sample_rt sampleBegin sampleEnd (Fin 10) no_then_yes)) =
     [\<lparr>c_index = 1, c_trkPrt = nearPoint, c_minDist = Fin 0, c_inBetween = True,
       c_isMinDist = True\<rparr>, ?c]"
    by (simp add: sample_run)
  then have c: "?c \<in> set (offers (trace (findMergePoint sample_rt sampleBegin sampleEnd (Fin 10)
      no_then_yes)))" by simp
  have d: "dist_at sample_rt sampleBegin sampleEnd 2 = Fin 0"
    by (simp add: dist_at_def fromTrkPrt_def sample_defs)
  have m: "minDist_at sample_rt sampleBegin sampleEnd (Fin 10) 2 = Fin 0"
    by (simp add: numeral_2_eq_2 qualifies_def dist_at_def fromTrkPrt_def sample_defs)
  from minimum_flag [OF e c] o d m show ?thesis by simp
qed

text \<open>
  Claim C6, as amended.  The between-flag reported for a candidate at index \<open>i\<close> is
  \<open>isBetween(endFirstPoint, P, next)\<close> with \<open>next\<close> the begin point at index \<open>i + 1\<close>;
  for a candidate at the last index of the begin track the flag is false.
\<close>

theorem between_flag:
  assumes "e \<noteq> []" and "c \<in> set (offers (trace (findMergePoint rt b e thr answers)))"
  shows "c_index c < length b \<and> c_trkPrt c = b ! c_index c \<and>
         c_inBetween c =
           (if c_index c + 1 < length b
            then isBetween (fromTrkPrt rt (hd e)) (fromTrkPrt rt (b ! c_index c))
                   (fromTrkPrt rt (b ! (c_index c + 1)))
            else False)"
proof -
  from assms obtain i where i: "i < length b" and c: "c = offer_at rt b e thr i"
    unfolding offers_findMergePoint [OF assms(1)] by blast
  have "(i < length b - 1) = (i + 1 < length b)" using i by auto
  then show ?thesis unfolding c using i by (simp add: offer_at_def)
qed

theorem between_flag_witness:
  "c_inBetween \<lparr>c_index = 1, c_trkPrt = nearPoint, c_minDist = Fin 0, c_inBetween = True,
       c_isMinDist = True\<rparr> =
     isBetween (fromTrkPrt sample_rt endFirst) (fromTrkPrt sample_rt nearPoint)
       (fromTrkPrt sample_rt nearPoint) \<and>
   hd sampleEnd = endFirst \<and> sampleBegin ! 1 = nearPoint \<and> sampleBegin ! (1 + 1) = nearPoint \<and>
   1 + 1 < length sampleBegin"
proof -
  let ?c = "\<lparr>c_index = 1, c_trkPrt = nearPoint, c_minDist = Fin 0, c_inBetween = True,
       c_isMinDist = True\<rparr>"
  have e: "sampleEnd \<noteq> []" by (simp add: sampleEnd_def)
  have c: "?c \<in> set (offers (trace (findMergePoint sample_rt sampleBegin sampleEnd (Fin 10)
      no_then_yes)))" by (simp add: sample_run)
  have s: "hd sampleEnd = endFirst \<and> sampleBegin ! 1 = nearPoint \<and>
      sampleBegin ! (1 + 1) = nearPoint \<and> 1 + 1 < length sampleBegin"
    by (simp add: sampleBegin_def sampleEnd_def)
  from between_flag [OF e c] have "c_inBetween ?c =
      (if c_index ?c + 1 < length sampleBegin
       then isBetween (fromTrkPrt sample_rt (hd sampleEnd))
              (fromTrkPrt sample_rt (sampleBegin ! c_index ?c))
              (fromTrkPrt sample_rt (sampleBegin ! (c_index ?c + 1)))
       else False)" by blast
  then have "c_inBetween ?c =
      isBetween (fromTrkPrt sample_rt endFirst) (fromTrkPrt sample_rt nearPoint)
        (fromTrkPrt sample_rt nearPoint)"
    using s by (simp del: One_nat_def)
  with s show ?thesis by blast
qed

text \<open>
  For a candidate at the last index the flag is not \<open>isBetween(endFirstPoint, P, P)\<close>:
  a begin track of one point at the coordinates of the merge point is reported as not
  between, while \<open>isBetween\<close> of the point with itself is true.
\<close>

theorem between_flag_last_index_counterexample:
  "map c_inBetween (offers (trace (findMergePoint sample_rt [nearPoint] [endFirst] (Fin 10)
      (always ''n'')))) = [False] \<and>
   isBetween (fromTrkPrt sample_rt endFirst) (fromTrkPrt sample_rt nearPoint)
     (fromTrkPrt sample_rt nearPoint) = True"
proof -
  have "map c_inBetween (offers (trace (findMergePoint sample_rt [nearPoint] [endFirst] (Fin 10)
      (always ''n'')))) = [False]"
    by (simp add: single_point_run)
  moreover have "isBetween (fromTrkPrt sample_rt endFirst) (fromTrkPrt sample_rt nearPoint)
     (fromTrkPrt sample_rt nearPoint) = True"
    by (simp add: isBetween_def fromTrkPrt_def sample_defs)
  ultimately show ?thesis by simp
qed




text \<open>
  Claim C7.  A run writes the output file at most once, and it writes it exactly when it
  ends merged at an index \<open>i\<close>: then the operator has confirmed the candidate at \<open>i\<close> and
  the write is the last event, right after that candidate was offered.  A run on an end
  track with a first point ends exhausted exactly when every qualifying point is declined;
  then nothing has been written and the last event is the message that no merge point was
  found.  That is the case for an empty begin track and when no begin point is within the
  threshold; the message is then the only event.
\<close>

theorem output_written_once_after_confirmation:
  "length (writes (trace (findMergePoint rt b e thr answers))) \<le> 1 \<and>
   (writes (trace (findMergePoint rt b e thr answers)) \<noteq> []) =
     (\<exists>i. ended (findMergePoint rt b e thr answers) = Merged i) \<and>
   (\<forall>i. ended (findMergePoint rt b e thr answers) = Merged i \<longrightarrow>
      (\<exists>a. answers i = Some a \<and> userConfirm a) \<and>
      (\<exists>pre out. trace (findMergePoint rt b e thr answers) =
          pre @ [Offered (offer_at rt b e thr i), WriteFile out] \<and> writes pre = [])) \<and>
   (e \<noteq> [] \<longrightarrow>
      (ended (findMergePoint rt b e thr answers) = Exhausted) =
      (\<forall>j<length b. \<not> halts rt b e thr answers j)) \<and>
   (ended (findMergePoint rt b e thr answers) = Exhausted \<longrightarrow>
      writes (trace (findMergePoint rt b e thr answers)) = [] \<and>
      last (trace (findMergePoint rt b e thr answers)) = NoMergePointFound) \<and>
   (e \<noteq> [] \<and> b = [] \<longrightarrow>
      findMergePoint rt b e thr answers = \<lparr>ended = Exhausted, trace = [NoMergePointFound]\<rparr>) \<and>
   (e \<noteq> [] \<and> (\<forall>j<length b. \<not> js_le (dist_at rt b e j) thr) \<longrightarrow>
      findMergePoint rt b e thr answers = \<lparr>ended = Exhausted, trace = [NoMergePointFound]\<rparr>)"
proof -
  let ?r = "findMergePoint rt b e thr answers"
  have unmerged: "writes (trace ?r) = []" if "\<forall>i. ended ?r \<noteq> Merged i"
  proof (cases "e = []")
    case True
    then show ?thesis by (simp add: findMergePoint_def)
  next
    case False
    show ?thesis
      using that writes_scan_at_unmerged [of rt b e thr answers 0]
      unfolding findMergePoint_scan_at [OF False] by blast
  qed
  have merged: "(\<exists>a. answers i = Some a \<and> userConfirm a) \<and>
      (\<exists>pre out. trace ?r = pre @ [Offered (offer_at rt b e thr i), WriteFile out] \<and>
         writes pre = []) \<and> length (writes (trace ?r)) = 1"
    if "ended ?r = Merged i" for i
    using merged_run [OF that] by auto
  have p1: "length (writes (trace ?r)) \<le> 1"
    using unmerged merged by (cases "\<exists>i. ended ?r = Merged i") auto
  have p2: "(writes (trace ?r) \<noteq> []) = (\<exists>i. ended ?r = Merged i)"
    using unmerged merged by (cases "\<exists>i. ended ?r = Merged i") auto
  have p3: "\<forall>i. ended ?r = Merged i \<longrightarrow>
      (\<exists>a. answers i = Some a \<and> userConfirm a) \<and>
      (\<exists>pre out. trace ?r = pre @ [Offered (offer_at rt b e thr i), WriteFile out] \<and>
         writes pre = [])"
    using merged by blast
  have p4: "(ended ?r = Exhausted) = (\<forall>j<length b. \<not> halts rt b e thr answers j)"
    if "e \<noteq> []"
    unfolding findMergePoint_scan_at [OF that] exhausted_scan_at by simp
  have p5: "writes (trace ?r) = [] \<and> last (trace ?r) = NoMergePointFound"
    if x: "ended ?r = Exhausted"
  proof -
    have e: "e \<noteq> []" using x by (auto simp: findMergePoint_def)
    have "last (trace ?r) = NoMergePointFound"
      using x exhausted_trace_scan_at [of rt b e thr answers 0]
      unfolding findMergePoint_scan_at [OF e] by blast
    moreover have "writes (trace ?r) = []" using x unmerged by simp
    ultimately show ?thesis by simp
  qed
  have p7: "?r = \<lparr>ended = Exhausted, trace = [NoMergePointFound]\<rparr>"
    if "e \<noteq> []" and "\<forall>j<length b. \<not> js_le (dist_at rt b e j) thr"
    using that(2) unqualified_scan_at [of 0 b rt e thr answers]
    unfolding findMergePoint_scan_at [OF that(1)] qualifies_def by blast
  have p6: "?r = \<lparr>ended = Exhausted, trace = [NoMergePointFound]\<rparr>"
    if "e \<noteq> []" and "b = []"
    using p7 [OF that(1)] that(2) by simp
  from p1 p2 p3 p4 p5 p6 p7 show ?thesis by blast
qed


theorem output_written_once_after_confirmation_witness:
  "ended (findMergePoint sample_rt sampleBegin sampleEnd (Fin 10) no_then_yes) = Merged 2 \<and>
   writes (trace (findMergePoint sample_rt sampleBegin sampleEnd (Fin 10) no_then_yes)) \<noteq> [] \<and>
   length (writes (trace (findMergePoint sample_rt sampleBegin sampleEnd (Fin 10) no_then_yes)))
     \<le> 1 \<and>
   ended (findMergePoint sample_rt [nearPoint] [endFirst] (Fin 10) (always ''n'')) = Exhausted \<and>
   writes (trace (findMergePoint sample_rt [nearPoint] [endFirst] (Fin 10) (always ''n''))) = [] \<and>
   last (trace (findMergePoint sample_rt [nearPoint] [endFirst] (Fin 10) (always ''n''))) =
     NoMergePointFound \<and>
   halts sample_rt [nearPoint] [endFirst] (Fin 10) (always ''n'') 0 = False \<and>
   findMergePoint sample_rt [] [endFirst] (Fin 10) (always ''y'') =
     \<lparr>ended = Exhausted, trace = [NoMergePointFound]\<rparr> \<and>
   js_le (dist_at sample_rt [farPoint] [endFirst] 0) (Fin 10) = False \<and>
   findMergePoint sample_rt [farPoint] [endFirst] (Fin 10) (always ''y'') =
     \<lparr>ended = Exhausted, trace = [NoMergePointFound]\<rparr>"
proof -
  let ?A = "findMergePoint sample_rt sampleBegin sampleEnd (Fin 10) no_then_yes"
  let ?B = "findMergePoint sample_rt [nearPoint] [endFirst] (Fin 10) (always ''n'')"
  have a: "ended ?A = Merged 2" by (simp add: sample_run)
  from output_written_once_after_confirmation [of sample_rt sampleBegin sampleEnd "Fin 10"
      no_then_yes] a
  have A: "writes (trace ?A) \<noteq> [] \<and> length (writes (trace ?A)) \<le> 1" by blast
  have b: "ended ?B = Exhausted" by (simp add: single_point_run)
  have e: "[endFirst] \<noteq> []" by simp
  from output_written_once_after_confirmation [of sample_rt "[nearPoint]" "[endFirst]" "Fin 10"
      "always ''n''"] b e
  have B: "writes (trace ?B) = [] \<and> last (trace ?B) = NoMergePointFound \<and>
      (\<forall>j<length [nearPoint]. \<not> halts sample_rt [nearPoint] [endFirst] (Fin 10) (always ''n'') j)"
    by blast
  then have h: "halts sample_rt [nearPoint] [endFirst] (Fin 10) (always ''n'') 0 = False"
    by simp
  from output_written_once_after_confirmation [of sample_rt "[]" "[endFirst]" "Fin 10"
      "always ''y''"] e
  have C: "findMergePoint sample_rt [] [endFirst] (Fin 10) (always ''y'') =
     \<lparr>ended = Exhausted, trace = [NoMergePointFound]\<rparr>" by blast
  have d: "js_le (dist_at sample_rt [farPoint] [endFirst] 0) (Fin 10) = False"
    by (simp add: dist_at_def fromTrkPrt_def sample_defs)
  then have far: "\<forall>j<length [farPoint]. \<not> js_le (dist_at sample_rt [farPoint] [endFirst] j) (Fin 10)"
    by simp
  from output_written_once_after_confirmation [of sample_rt "[farPoint]" "[endFirst]" "Fin 10"
      "always ''y''"] e far
  have D: "findMergePoint sample_rt [farPoint] [endFirst] (Fin 10) (always ''y'') =
     \<lparr>ended = Exhausted, trace = [NoMergePointFound]\<rparr>" by blast
  from a A b B h C d D show ?thesis by blast
qed


end
